theory Spec2Isabelle
  imports Main "HOL-Library.Word" "HOL-Library.AList" "HOL-Library.Multiset"
    "HOL-Library.Signed_Division"
begin

section \<open>The event stream of hystrix: data model\<close>

text \<open>
  The development follows \<^verbatim>\<open>hystrix/eventstream.go\<close>. A \<^verbatim>\<open>StreamHandler\<close> keeps a map
  from HTTP requests to buffered channels of frames; a background loop publishes, once per
  tick, one command frame and one thread-pool frame for every circuit breaker to all of
  those channels, with a send that never blocks.

  The model is sequential: one call runs at a time, so the reader/writer lock \<^verbatim>\<open>sh.mu\<close>
  has no counterpart. A request is identified by a number (the Go map is keyed by the
  pointer). A channel value is a reference: here an index into the list of the channels
  allocated so far.
\<close>

type_synonym request = nat
type_synonym chan_ref = nat
type_synonym bytes = string

definition streamEventBufferSize :: nat where
  "streamEventBufferSize = 10"

text \<open>A buffered channel of frames: the pending elements, oldest first, and the capacity.\<close>

record chan =
  buf :: "bytes list"
  cap :: nat

text \<open>\<^verbatim>\<open>sh.done\<close> is a channel that is never sent on: it is nil, open or closed.\<close>

datatype done_chan = DoneNil | DoneOpen | DoneClosed

text \<open>Go's error values, and the run-time panics the handler's own statements can raise.\<close>

datatype error = Error string

datatype panic = AssignNilMap | CloseNilChan | CloseClosedChan

text \<open>
  Time: an instant is the value of its \<^verbatim>\<open>UnixNano()\<close>. The state carries the results of the
  successive calls of \<^verbatim>\<open>time.Now()\<close> and the number of calls made so far.

  \<^verbatim>\<open>requests\<close> is \<^verbatim>\<open>None\<close> for the nil map of a handler that was never started, and an
  association list otherwise; the order of the list is the order in which a \<^verbatim>\<open>range\<close>
  visits the entries.
\<close>

type_synonym time = int

record state =
  requests :: "(request \<times> chan_ref) list option"
  done_ch :: done_chan
  chans :: "chan list"
  clock :: "nat \<Rightarrow> time"
  reads :: nat

subsection \<open>The records that are serialised\<close>

record streamCmdLatency =
  Timing0 :: "32 word"
  Timing25 :: "32 word"
  Timing50 :: "32 word"
  Timing75 :: "32 word"
  Timing90 :: "32 word"
  Timing95 :: "32 word"
  Timing99 :: "32 word"
  Timing995 :: "32 word"
  Timing100 :: "32 word"

record streamCmdMetric =
  Type :: string
  Name :: string
  Group :: string
  Time :: int
  ReportingHosts :: "32 word"
  RequestCount :: "32 word"
  ErrorCount :: "32 word"
  ErrorPct :: "32 word"
  CircuitBreakerOpen :: bool
  RollingCountCollapsedRequests :: "32 word"
  RollingCountExceptionsThrown :: "32 word"
  RollingCountFailure :: "32 word"
  RollingCountFallbackFailure :: "32 word"
  RollingCountFallbackRejection :: "32 word"
  RollingCountFallbackSuccess :: "32 word"
  RollingCountResponsesFromCache :: "32 word"
  RollingCountSemaphoreRejected :: "32 word"
  RollingCountShortCircuited :: "32 word"
  RollingCountSuccess :: "32 word"
  RollingCountThreadPoolRejected :: "32 word"
  RollingCountTimeout :: "32 word"
  CurrentConcurrentExecutionCount :: "32 word"
  LatencyExecuteMean :: "32 word"
  LatencyExecute :: streamCmdLatency
  LatencyTotalMean :: "32 word"
  LatencyTotal :: streamCmdLatency
  CircuitBreakerRequestVolumeThreshold :: "32 word"
  CircuitBreakerSleepWindow :: "32 word"
  CircuitBreakerErrorThresholdPercent :: "32 word"
  CircuitBreakerForceOpen :: bool
  CircuitBreakerForceClosed :: bool
  CircuitBreakerEnabled :: bool
  ExecutionIsolationStrategy :: string
  ExecutionIsolationThreadTimeout :: "32 word"
  ExecutionIsolationThreadInterruptOnTimeout :: bool
  ExecutionIsolationThreadPoolKeyOverride :: string
  ExecutionIsolationSemaphoreMaxConcurrentRequests :: "32 word"
  FallbackIsolationSemaphoreMaxConcurrentRequests :: "32 word"
  RollingStatsWindow :: "32 word"
  RequestCacheEnabled :: bool
  RequestLogEnabled :: bool

record streamThreadPoolMetric =
  tp_Type :: string
  tp_Name :: string
  tp_ReportingHosts :: "32 word"
  CurrentActiveCount :: "32 word"
  CurrentCompletedTaskCount :: "32 word"
  CurrentCorePoolSize :: "32 word"
  CurrentLargestPoolSize :: "32 word"
  CurrentMaximumPoolSize :: "32 word"
  CurrentPoolSize :: "32 word"
  CurrentQueueSize :: "32 word"
  CurrentTaskCount :: "32 word"
  RollingMaxActiveThreads :: "32 word"
  RollingCountThreadsExecuted :: "32 word"
  tp_RollingStatsWindow :: "32 word"
  QueueSizeRejectionThreshold :: "32 word"

subsection \<open>The collaborators: circuit breakers, their metrics and pools\<close>

text \<open>
  Modelled from the spec: the declarations of \<^verbatim>\<open>CircuitBreaker\<close>, of its metrics and of
  \<^verbatim>\<open>executorPool\<close>, which are not in the two source files. The specification describes a
  circuit as exposing its name, its open and force-open flags, rolling counters ``as of a
  given instant'', latency summaries and a pool, and a pool as exposing its name, active
  count, capacity and rolling counters; the fields below are those that
  \<^verbatim>\<open>eventstream.go\<close> reads, under the names it uses. A rolling number is the function from
  the instant of the query to the answer of \<^verbatim>\<open>Sum(now)\<close> (or \<^verbatim>\<open>Max(now)\<close>); an answer is a
  64-bit integer, which \<^verbatim>\<open>uint32(...)\<close> cuts to its low 32 bits. \<^verbatim>\<open>isOpen\<close> and
  \<^verbatim>\<open>ActiveCount\<close> hold the results of the method calls of the same names.
\<close>

type_synonym rollingNumber = "time \<Rightarrow> 64 word"

record rollingTiming =
  Timings :: streamCmdLatency
  Mean :: "32 word"

record metricExchange =
  Requests :: rollingNumber
  Errors :: rollingNumber
  ErrorPercent :: "time \<Rightarrow> 64 word"
  Successes :: rollingNumber
  Failures :: rollingNumber
  Rejected :: rollingNumber
  ShortCircuits :: rollingNumber
  Timeouts :: rollingNumber
  FallbackSuccesses :: rollingNumber
  FallbackFailures :: rollingNumber
  TotalDuration :: rollingTiming
  RunDuration :: rollingTiming

record executorPool =
  pool_Name :: string
  pool_Max :: "64 word"
  ActiveCount :: "64 word"
  Executed :: rollingNumber
  MaxActiveRequests :: rollingNumber

text \<open>
  Modelled from the spec: the static configuration of a circuit, which the source files do
  not declare. The specification lists it as what a circuit exposes besides its counters:
  ``thresholds, window size, isolation strategy''.
\<close>

record circuitConfig =
  cfg_ErrorThresholdPercent :: "32 word"
  cfg_SleepWindow :: "32 word"
  cfg_RequestVolumeThreshold :: "32 word"
  cfg_RollingStatsWindow :: "32 word"
  cfg_IsolationStrategy :: string

record CircuitBreaker =
  cb_Name :: string
  forceOpen :: bool
  isOpen :: bool
  metrics :: metricExchange
  cb_executorPool :: executorPool
  config :: circuitConfig

text \<open>
  \<^verbatim>\<open>json.Marshal\<close> belongs to Go's library: it is a parameter of the publishing functions,
  a function from the value to either an error or the encoding.
\<close>

datatype jsonValue = CmdMetric streamCmdMetric | ThreadPoolMetric streamThreadPoolMetric

type_synonym marshaller = "jsonValue \<Rightarrow> error + bytes"

section \<open>The operations\<close>

subsection \<open>Construction, start and stop\<close>

text \<open>
  \<^verbatim>\<open>NewStreamHandler\<close> returns the zero value: a nil map and a nil channel. The clock and
  the channels allocated so far belong to the run-time system and are given.
\<close>

definition NewStreamHandler :: "(nat \<Rightarrow> time) \<Rightarrow> state" where
  "NewStreamHandler clk =
     \<lparr>requests = None, done_ch = DoneNil, chans = [], clock = clk, reads = 0\<rparr>"

text \<open>\<^verbatim>\<open>Start\<close> makes the map and the channel; the loop it starts is \<open>loop\<close> below.\<close>

definition Start :: "state \<Rightarrow> state" where
  "Start s = s\<lparr>requests := Some [], done_ch := DoneOpen\<rparr>"

text \<open>\<^verbatim>\<open>Stop\<close> closes \<^verbatim>\<open>sh.done\<close>; closing a nil or a closed channel panics.\<close>

definition Stop :: "state \<Rightarrow> panic + state" where
  "Stop s =
     (case done_ch s of
        DoneNil \<Rightarrow> Inl CloseNilChan
      | DoneClosed \<Rightarrow> Inl CloseClosedChan
      | DoneOpen \<Rightarrow> Inr (s\<lparr>done_ch := DoneClosed\<rparr>))"

subsection \<open>The registry\<close>

text \<open>The entries of the map, in the order of iteration; a nil map has none.\<close>

definition registered :: "state \<Rightarrow> (request \<times> chan_ref) list" where
  "registered s = (case requests s of None \<Rightarrow> [] | Some m \<Rightarrow> m)"

text \<open>\<^verbatim>\<open>sh.requests[req]\<close> with the comma-ok form: reading a nil map finds nothing.\<close>

definition lookup :: "state \<Rightarrow> request \<Rightarrow> chan_ref option" where
  "lookup s req = (case requests s of None \<Rightarrow> None | Some m \<Rightarrow> map_of m req)"

text \<open>\<^verbatim>\<open>make(chan []byte, n)\<close>: a new, empty channel, referred to by the next free index.\<close>

definition make_chan :: "nat \<Rightarrow> state \<Rightarrow> chan_ref \<times> state" where
  "make_chan n s = (length (chans s), s\<lparr>chans := chans s @ [\<lparr>buf = [], cap = n\<rparr>]\<rparr>)"

text \<open>
  \<^verbatim>\<open>register\<close>: the channel already stored for the request if there is one; otherwise a new
  channel of capacity \<open>streamEventBufferSize\<close> is made and stored. The assignment to an
  entry of a nil map panics.
\<close>

definition register :: "request \<Rightarrow> state \<Rightarrow> panic + (chan_ref \<times> state)" where
  "register req s =
     (case lookup s req of
        Some events \<Rightarrow> Inr (events, s)
      | None \<Rightarrow>
          (case make_chan streamEventBufferSize s of
             (events, s') \<Rightarrow>
               (case requests s' of
                  None \<Rightarrow> Inl AssignNilMap
                | Some m \<Rightarrow> Inr (events, s'\<lparr>requests := Some (AList.update req events m)\<rparr>))))"

text \<open>\<^verbatim>\<open>unregister\<close>: \<^verbatim>\<open>delete(sh.requests, req)\<close>, which does nothing on a nil map.\<close>

definition unregister :: "request \<Rightarrow> state \<Rightarrow> state" where
  "unregister req s = s\<lparr>requests := map_option (AList.delete req) (requests s)\<rparr>"

subsection \<open>Broadcasting a frame\<close>

text \<open>
  \<^verbatim>\<open>bytes.Buffer.Write\<close> appends and returns the number of bytes written and an error that,
  by its documentation, is always nil.
\<close>

definition buffer_Write :: "bytes \<Rightarrow> bytes \<Rightarrow> bytes \<times> nat \<times> error option" where
  "buffer_Write b p = (b @ p, length p, None)"

text \<open>
  The send of \<^verbatim>\<open>select { case ch <- v: default: }\<close>: the value is appended when the channel
  has room, and nothing happens otherwise.
\<close>

definition send_nb :: "chan_ref \<Rightarrow> bytes \<Rightarrow> chan list \<Rightarrow> chan list" where
  "send_nb c v h =
     (if c < length h \<and> length (buf (h ! c)) < cap (h ! c)
      then h[c := (h ! c)\<lparr>buf := buf (h ! c) @ [v]\<rparr>]
      else h)"

definition writeToRequests :: "bytes \<Rightarrow> state \<Rightarrow> error option \<times> state" where
  "writeToRequests eventBytes s =
     (case buffer_Write [] ''data:'' of
        (b1, _, Some err) \<Rightarrow> (Some err, s)
      | (b1, _, None) \<Rightarrow>
     (case buffer_Write b1 eventBytes of
        (b2, _, Some err) \<Rightarrow> (Some err, s)
      | (b2, _, None) \<Rightarrow>
     (case buffer_Write b2 [CHR 0x0A, CHR 0x0A] of
        (b3, _, Some err) \<Rightarrow> (Some err, s)
      | (dataBytes, _, None) \<Rightarrow>
          (None,
           s\<lparr>chans := fold (\<lambda>(req, requestEvents). send_nb requestEvents dataBytes)
                        (registered s) (chans s)\<rparr>))))"

subsection \<open>Building and publishing the metrics\<close>

definition timeNow :: "state \<Rightarrow> time \<times> state" where
  "timeNow s = (clock s (reads s), s\<lparr>reads := Suc (reads s)\<rparr>)"

text \<open>\<^verbatim>\<open>currentTime\<close>: milliseconds, by Go's division, which truncates towards zero.\<close>

definition currentTime :: "state \<Rightarrow> int \<times> state" where
  "currentTime s = (case timeNow s of (t, s') \<Rightarrow> (t sdiv 1000000, s'))"

definition zeroLatency :: streamCmdLatency where
  "zeroLatency =
     \<lparr>Timing0 = 0, Timing25 = 0, Timing50 = 0, Timing75 = 0, Timing90 = 0, Timing95 = 0,
      Timing99 = 0, Timing995 = 0, Timing100 = 0\<rparr>"

text \<open>
  The literal of \<^verbatim>\<open>publishMetrics\<close>, given the instant \<open>now\<close> read at its start and the
  result \<open>cur\<close> of \<^verbatim>\<open>currentTime()\<close>. Fields that the literal leaves out have Go's zero value.
\<close>

definition cmdMetric :: "CircuitBreaker \<Rightarrow> time \<Rightarrow> int \<Rightarrow> streamCmdMetric" where
  "cmdMetric cb now cur =
     \<lparr>Type = ''HystrixCommand'',
      Name = cb_Name cb,
      Group = cb_Name cb,
      Time = cur,
      ReportingHosts = 1,
      RequestCount = ucast (Requests (metrics cb) now),
      ErrorCount = ucast (Errors (metrics cb) now),
      ErrorPct = ucast (ErrorPercent (metrics cb) now),
      CircuitBreakerOpen = isOpen cb,
      RollingCountCollapsedRequests = 0,
      RollingCountExceptionsThrown = 0,
      RollingCountFailure = ucast (Failures (metrics cb) now),
      RollingCountFallbackFailure = ucast (FallbackFailures (metrics cb) now),
      RollingCountFallbackRejection = 0,
      RollingCountFallbackSuccess = ucast (FallbackSuccesses (metrics cb) now),
      RollingCountResponsesFromCache = 0,
      RollingCountSemaphoreRejected = 0,
      RollingCountShortCircuited = ucast (ShortCircuits (metrics cb) now),
      RollingCountSuccess = ucast (Successes (metrics cb) now),
      RollingCountThreadPoolRejected = ucast (Rejected (metrics cb) now),
      RollingCountTimeout = ucast (Timeouts (metrics cb) now),
      CurrentConcurrentExecutionCount = 0,
      LatencyExecuteMean = Mean (RunDuration (metrics cb)),
      LatencyExecute = Timings (RunDuration (metrics cb)),
      LatencyTotalMean = Mean (TotalDuration (metrics cb)),
      LatencyTotal = Timings (TotalDuration (metrics cb)),
      CircuitBreakerRequestVolumeThreshold = 20,
      CircuitBreakerSleepWindow = 5000,
      CircuitBreakerErrorThresholdPercent = 50,
      CircuitBreakerForceOpen = forceOpen cb,
      CircuitBreakerForceClosed = False,
      CircuitBreakerEnabled = True,
      ExecutionIsolationStrategy = ''THREAD'',
      ExecutionIsolationThreadTimeout = 0,
      ExecutionIsolationThreadInterruptOnTimeout = False,
      ExecutionIsolationThreadPoolKeyOverride = [],
      ExecutionIsolationSemaphoreMaxConcurrentRequests = 0,
      FallbackIsolationSemaphoreMaxConcurrentRequests = 0,
      RollingStatsWindow = 10000,
      RequestCacheEnabled = False,
      RequestLogEnabled = False\<rparr>"

definition threadPoolMetric :: "executorPool \<Rightarrow> time \<Rightarrow> streamThreadPoolMetric" where
  "threadPoolMetric pool now =
     \<lparr>tp_Type = ''HystrixThreadPool'',
      tp_Name = pool_Name pool,
      tp_ReportingHosts = 1,
      CurrentActiveCount = ucast (ActiveCount pool),
      CurrentCompletedTaskCount = 0,
      CurrentCorePoolSize = ucast (pool_Max pool),
      CurrentLargestPoolSize = ucast (pool_Max pool),
      CurrentMaximumPoolSize = ucast (pool_Max pool),
      CurrentPoolSize = ucast (pool_Max pool),
      CurrentQueueSize = 0,
      CurrentTaskCount = 0,
      RollingMaxActiveThreads = ucast (MaxActiveRequests pool now),
      RollingCountThreadsExecuted = ucast (Executed pool now),
      tp_RollingStatsWindow = 10000,
      QueueSizeRejectionThreshold = 0\<rparr>"

text \<open>
  \<^verbatim>\<open>publishMetrics\<close> reads the clock once for \<open>now\<close> and once more inside
  \<^verbatim>\<open>currentTime()\<close>, marshals the record and hands the bytes to \<open>writeToRequests\<close>; both
  errors are returned.
\<close>

definition publishMetrics :: "marshaller \<Rightarrow> CircuitBreaker \<Rightarrow> state \<Rightarrow> error option \<times> state" where
  "publishMetrics marshal cb s =
     (case timeNow s of (now, s1) \<Rightarrow>
     (case currentTime s1 of (cur, s2) \<Rightarrow>
     (case marshal (CmdMetric (cmdMetric cb now cur)) of
        Inl err \<Rightarrow> (Some err, s2)
      | Inr eventBytes \<Rightarrow>
          (case writeToRequests eventBytes s2 of
             (Some err, s3) \<Rightarrow> (Some err, s3)
           | (None, s3) \<Rightarrow> (None, s3)))))"

text \<open>
  \<^verbatim>\<open>publishThreadPools\<close> returns a marshalling error, but assigns the result of
  \<open>writeToRequests\<close> to \<^verbatim>\<open>err\<close> and then returns nil.
\<close>

definition publishThreadPools :: "marshaller \<Rightarrow> executorPool \<Rightarrow> state \<Rightarrow> error option \<times> state" where
  "publishThreadPools marshal pool s =
     (case timeNow s of (now, s1) \<Rightarrow>
     (case marshal (ThreadPoolMetric (threadPoolMetric pool now)) of
        Inl err \<Rightarrow> (Some err, s1)
      | Inr eventBytes \<Rightarrow>
          (case writeToRequests eventBytes s1 of (err, s2) \<Rightarrow> (None, s2))))"

subsection \<open>The broadcast loop\<close>

text \<open>
  The body of the tick case: for every circuit breaker, in the order of the iteration,
  \<^verbatim>\<open>publishMetrics\<close> and then \<^verbatim>\<open>publishThreadPools\<close>, whose results the loop does not look at.
\<close>

fun publishAll :: "marshaller \<Rightarrow> CircuitBreaker list \<Rightarrow> state \<Rightarrow> state" where
  "publishAll marshal [] s = s"
| "publishAll marshal (cb # cbs) s =
     (case publishMetrics marshal cb s of (_, s1) \<Rightarrow>
      case publishThreadPools marshal (cb_executorPool cb) s1 of (_, s2) \<Rightarrow>
        publishAll marshal cbs s2)"

text \<open>
  The loop runs for as long as its \<^verbatim>\<open>select\<close> is served. Its input is the finite sequence
  of what the \<^verbatim>\<open>select\<close> is offered: a tick, with the circuit breakers that the global map
  holds at that moment, or the receive from \<^verbatim>\<open>sh.done\<close>, which is ready only once the
  channel is closed. When the sequence is used up the loop is waiting in the \<^verbatim>\<open>select\<close>.
\<close>

datatype offer = Tick "CircuitBreaker list" | Done

datatype status = Running | Returned

fun loop :: "marshaller \<Rightarrow> offer list \<Rightarrow> state \<Rightarrow> status \<times> state" where
  "loop marshal [] s = (Running, s)"
| "loop marshal (Tick cbs # evs) s = loop marshal evs (publishAll marshal cbs s)"
| "loop marshal (Done # evs) s =
     (if done_ch s = DoneClosed then (Returned, s) else loop marshal evs s)"

subsection \<open>Sequences of calls on the registry\<close>

datatype call = Register request | Unregister request

fun apply_call :: "call \<Rightarrow> state \<Rightarrow> panic + state" where
  "apply_call (Register req) s =
     (case register req s of Inl p \<Rightarrow> Inl p | Inr (events, s') \<Rightarrow> Inr s')"
| "apply_call (Unregister req) s = Inr (unregister req s)"

fun run :: "call list \<Rightarrow> state \<Rightarrow> panic + state" where
  "run [] s = Inr s"
| "run (c # cs) s = (case apply_call c s of Inl p \<Rightarrow> Inl p | Inr s' \<Rightarrow> run cs s')"

text \<open>
  The specification's side of the count: the connections that have been registered and not
  unregistered since, computed along the sequence of calls.
\<close>

fun live_step :: "request set \<Rightarrow> call \<Rightarrow> request set" where
  "live_step L (Register req) = insert req L"
| "live_step L (Unregister req) = L - {req}"

definition live :: "call list \<Rightarrow> request set" where
  "live cs = foldl live_step {} cs"

subsection \<open>Well-formed states\<close>

text \<open>
  What \<^verbatim>\<open>Start\<close>, \<^verbatim>\<open>register\<close> and \<^verbatim>\<open>unregister\<close> maintain: a request has one entry, two
  entries never hold the same channel, every stored channel has been allocated, and it has
  the capacity of \<open>streamEventBufferSize\<close>, which its buffer does not exceed.
\<close>

definition wellformed :: "state \<Rightarrow> bool" where
  "wellformed s \<longleftrightarrow>
     distinct (map fst (registered s)) \<and>
     distinct (map snd (registered s)) \<and>
     list_all (\<lambda>(req, c). c < length (chans s) \<and>
                 cap (chans s ! c) = streamEventBufferSize \<and>
                 length (buf (chans s ! c)) \<le> cap (chans s ! c))
       (registered s)"

text \<open>The frame that \<open>writeToRequests\<close> builds from the bytes it is given.\<close>

definition frame :: "bytes \<Rightarrow> bytes" where
  "frame eventBytes = ''data:'' @ eventBytes @ [CHR 0x0A, CHR 0x0A]"

subsection \<open>Examples\<close>

text \<open>
  A circuit in the situation of the test ``after 1 successful command and 2 unsuccessful
  commands'', with a configuration that differs from the literals of \<^verbatim>\<open>publishMetrics\<close>;
  a marshaller that encodes a record as its kind and name and fails on the name \<^verbatim>\<open>bad\<close>;
  and a started handler with one subscriber.
\<close>

definition errorpercent_metrics :: metricExchange where
  "errorpercent_metrics =
     \<lparr>Requests = (\<lambda>now. 3), Errors = (\<lambda>now. 2), ErrorPercent = (\<lambda>now. 67),
      Successes = (\<lambda>now. 1), Failures = (\<lambda>now. 2), Rejected = (\<lambda>now. 0),
      ShortCircuits = (\<lambda>now. 0), Timeouts = (\<lambda>now. 0),
      FallbackSuccesses = (\<lambda>now. 0), FallbackFailures = (\<lambda>now. 2),
      TotalDuration = \<lparr>Timings = zeroLatency, Mean = 1\<rparr>,
      RunDuration = \<lparr>Timings = zeroLatency, Mean = 1\<rparr>\<rparr>"

definition errorpercent_circuit :: CircuitBreaker where
  "errorpercent_circuit =
     \<lparr>cb_Name = ''errorpercent'', forceOpen = False, isOpen = False,
      metrics = errorpercent_metrics,
      cb_executorPool =
        \<lparr>pool_Name = ''errorpercent'', pool_Max = 10, ActiveCount = 0,
         Executed = (\<lambda>now. 3), MaxActiveRequests = (\<lambda>now. 1)\<rparr>,
      config =
        \<lparr>cfg_ErrorThresholdPercent = 75, cfg_SleepWindow = 1000,
         cfg_RequestVolumeThreshold = 5, cfg_RollingStatsWindow = 20000,
         cfg_IsolationStrategy = ''SEMAPHORE''\<rparr>\<rparr>"

definition name_marshal :: marshaller where
  "name_marshal v =
     (case v of
        CmdMetric m \<Rightarrow>
          if Name m = ''bad'' then Inl (Error ''unsupported'') else Inr (''cmd:'' @ Name m)
      | ThreadPoolMetric p \<Rightarrow> Inr (''pool:'' @ tp_Name p))"

text \<open>
  A marshaller that tells whether the field \<open>Time\<close> of a command record is the millisecond
  of a given instant.
\<close>

definition instant_probe :: "time \<Rightarrow> marshaller" where
  "instant_probe now v =
     (case v of
        CmdMetric m \<Rightarrow>
          if Time m = now sdiv 1000000 then Inr ''same instant''
          else Inl (Error ''another instant'')
      | ThreadPoolMetric p \<Rightarrow> Inr ''pool'')"

definition one_subscriber :: state where
  "one_subscriber =
     \<lparr>requests = Some [(1, 0)], done_ch = DoneOpen, chans = [\<lparr>buf = [], cap = 10\<rparr>],
      clock = (\<lambda>n. 1000000 * int n), reads = 0\<rparr>"

section \<open>Properties of the registry\<close>

lemma update_fresh: "map_of m k = None \<Longrightarrow> AList.update k v m = m @ [(k, v)]"
  by (induction m) (auto split: if_splits)

lemma registered_Some [simp]: "requests s = Some m \<Longrightarrow> registered s = m"
  by (simp add: registered_def)

lemma registered_None [simp]: "requests s = None \<Longrightarrow> registered s = []"
  by (simp add: registered_def)

lemma lookup_registered: "lookup s req = map_of (registered s) req"
  by (simp add: lookup_def registered_def split: option.splits)

lemma register_found:
  "lookup s req = Some q \<Longrightarrow> register req s = Inr (q, s)"
  by (simp add: register_def)

lemma register_fresh:
  "requests s = Some m \<Longrightarrow> map_of m req = None \<Longrightarrow>
   register req s =
     Inr (length (chans s),
          s\<lparr>chans := chans s @ [\<lparr>buf = [], cap = streamEventBufferSize\<rparr>],
            requests := Some (m @ [(req, length (chans s))])\<rparr>)"
  by (simp add: register_def lookup_def make_chan_def update_fresh)

lemma register_nil:
  "requests s = None \<Longrightarrow> register req s = Inl AssignNilMap"
  by (simp add: register_def lookup_def make_chan_def)

text \<open>
  C4. On a handler that has been started, \<open>register\<close> is idempotent per request: when a
  channel is stored for the request, it is returned and the state is unchanged; otherwise
  a new, empty channel of capacity 10 is made, stored at the end of the map and returned.
  In both cases the call does not panic, a second call returns the same channel and
  changes nothing, and the registry grows by at most one entry.
\<close>

theorem register_idempotent:
  assumes "requests s = Some m"
  shows "(\<forall>q. map_of m req = Some q \<longrightarrow> register req s = Inr (q, s)) \<and>
         (map_of m req = None \<longrightarrow>
            register req s =
              Inr (length (chans s),
                   s\<lparr>chans := chans s @ [\<lparr>buf = [], cap = 10\<rparr>],
                     requests := Some (m @ [(req, length (chans s))])\<rparr>)) \<and>
         (\<exists>q s'. register req s = Inr (q, s') \<and>
            lookup s' req = Some q \<and>
            register req s' = Inr (q, s') \<and>
            length (registered s) \<le> length (registered s') \<and>
            length (registered s') \<le> Suc (length (registered s)))"
proof (intro conjI allI impI)
  fix q assume "map_of m req = Some q"
  with assms show "register req s = Inr (q, s)"
    by (simp add: register_found lookup_def)
next
  assume "map_of m req = None"
  with assms show "register req s =
              Inr (length (chans s),
                   s\<lparr>chans := chans s @ [\<lparr>buf = [], cap = 10\<rparr>],
                     requests := Some (m @ [(req, length (chans s))])\<rparr>)"
    using register_fresh [of s m req] by (simp add: streamEventBufferSize_def)
next
  show "\<exists>q s'. register req s = Inr (q, s') \<and>
            lookup s' req = Some q \<and>
            register req s' = Inr (q, s') \<and>
            length (registered s) \<le> length (registered s') \<and>
            length (registered s') \<le> Suc (length (registered s))"
  proof (cases "map_of m req")
    case (Some q)
    with assms have l: "lookup s req = Some q" by (simp add: lookup_def)
    then have "register req s = Inr (q, s)" by (rule register_found)
    with l show ?thesis by simp
  next
    case None
    let ?q = "length (chans s)"
    let ?s' = "s\<lparr>chans := chans s @ [\<lparr>buf = [], cap = streamEventBufferSize\<rparr>],
                 requests := Some (m @ [(req, ?q)])\<rparr>"
    from assms None have r: "register req s = Inr (?q, ?s')" by (rule register_fresh)
    from None have l: "lookup ?s' req = Some ?q" by (simp add: lookup_def map_add_def)
    then have "register req ?s' = Inr (?q, ?s')" by (rule register_found)
    with r l assms show ?thesis by simp
  qed
qed


text \<open>An instance: one request that is registered already, one that is new.\<close>

theorem register_idempotent_witness:
  "requests \<lparr>requests = Some [(7, 0)], done_ch = DoneOpen,
             chans = [\<lparr>buf = [''a''], cap = 10\<rparr>], clock = (\<lambda>n. 0), reads = 0\<rparr> = Some [(7, 0)] \<and>
   register 7 \<lparr>requests = Some [(7, 0)], done_ch = DoneOpen,
               chans = [\<lparr>buf = [''a''], cap = 10\<rparr>], clock = (\<lambda>n. 0), reads = 0\<rparr> =
     Inr (0, \<lparr>requests = Some [(7, 0)], done_ch = DoneOpen,
               chans = [\<lparr>buf = [''a''], cap = 10\<rparr>], clock = (\<lambda>n. 0), reads = 0\<rparr>) \<and>
   register 8 \<lparr>requests = Some [(7, 0)], done_ch = DoneOpen,
               chans = [\<lparr>buf = [''a''], cap = 10\<rparr>], clock = (\<lambda>n. 0), reads = 0\<rparr> =
     Inr (1, \<lparr>requests = Some [(7, 0), (8, 1)], done_ch = DoneOpen,
               chans = [\<lparr>buf = [''a''], cap = 10\<rparr>, \<lparr>buf = [], cap = 10\<rparr>],
               clock = (\<lambda>n. 0), reads = 0\<rparr>)"
  using register_idempotent [of "\<lparr>requests = Some [(7, 0)], done_ch = DoneOpen,
             chans = [\<lparr>buf = [''a''], cap = 10\<rparr>], clock = (\<lambda>n. 0), reads = 0\<rparr>" "[(7, 0)]" 7]
        register_idempotent [of "\<lparr>requests = Some [(7, 0)], done_ch = DoneOpen,
             chans = [\<lparr>buf = [''a''], cap = 10\<rparr>], clock = (\<lambda>n. 0), reads = 0\<rparr>" "[(7, 0)]" 8]
  by simp

lemma unregister_registered:
  "registered (unregister req s) = filter (\<lambda>e. fst e \<noteq> req) (registered s)"
  by (cases "requests s") (auto simp: unregister_def registered_def AList.delete_eq
        intro: filter_cong)

lemma unregister_absent:
  "req \<notin> fst ` set (registered s) \<Longrightarrow> unregister req s = s"
  by (cases "requests s") (simp_all add: unregister_def)

text \<open>
  C9. \<open>unregister\<close> removes the entry of the request and no other entry; when the request
  has no entry (never registered, or unregistered before) the state is exactly what it was.
  The function has no error result: it is total, also on the nil map.
\<close>

theorem unregister_removes:
  "registered (unregister req s) = filter (\<lambda>e. fst e \<noteq> req) (registered s) \<and>
   lookup (unregister req s) req = None \<and>
   (\<forall>r. r \<noteq> req \<longrightarrow> lookup (unregister req s) r = lookup s r) \<and>
   (req \<notin> fst ` set (registered s) \<longrightarrow> unregister req s = s) \<and>
   chans (unregister req s) = chans s \<and>
   done_ch (unregister req s) = done_ch s \<and>
   (requests (unregister req s) = None \<longleftrightarrow> requests s = None)"
proof (intro conjI allI impI)
  show "registered (unregister req s) = filter (\<lambda>e. fst e \<noteq> req) (registered s)"
    by (rule unregister_registered)
  show "lookup (unregister req s) req = None"
    by (cases "requests s") (simp_all add: lookup_def unregister_def delete_conv')
  show "lookup (unregister req s) r = lookup s r" if "r \<noteq> req" for r
    using that by (cases "requests s") (simp_all add: lookup_def unregister_def)
  show "unregister req s = s" if "req \<notin> fst ` set (registered s)"
    using that by (rule unregister_absent)
  show "chans (unregister req s) = chans s" by (simp add: unregister_def)
  show "done_ch (unregister req s) = done_ch s" by (simp add: unregister_def)
  show "requests (unregister req s) = None \<longleftrightarrow> requests s = None"
    by (simp add: unregister_def)
qed

text \<open>An instance: a registered request is removed, an unknown one changes nothing.\<close>

theorem unregister_removes_witness:
  "registered (unregister 7 \<lparr>requests = Some [(7, 0), (8, 1)], done_ch = DoneOpen,
                 chans = [\<lparr>buf = [], cap = 10\<rparr>, \<lparr>buf = [], cap = 10\<rparr>],
                 clock = (\<lambda>n. 0), reads = 0\<rparr>) = [(8, 1)] \<and>
   9 \<notin> fst ` set (registered \<lparr>requests = Some [(7, 0), (8, 1)], done_ch = DoneOpen,
                 chans = [\<lparr>buf = [], cap = 10\<rparr>, \<lparr>buf = [], cap = 10\<rparr>],
                 clock = (\<lambda>n. 0), reads = 0\<rparr>) \<and>
   unregister 9 \<lparr>requests = Some [(7, 0), (8, 1)], done_ch = DoneOpen,
                 chans = [\<lparr>buf = [], cap = 10\<rparr>, \<lparr>buf = [], cap = 10\<rparr>],
                 clock = (\<lambda>n. 0), reads = 0\<rparr> =
     \<lparr>requests = Some [(7, 0), (8, 1)], done_ch = DoneOpen,
      chans = [\<lparr>buf = [], cap = 10\<rparr>, \<lparr>buf = [], cap = 10\<rparr>],
      clock = (\<lambda>n. 0), reads = 0\<rparr>"
  using unregister_removes [of 7 "\<lparr>requests = Some [(7, 0), (8, 1)], done_ch = DoneOpen,
                 chans = [\<lparr>buf = [], cap = 10\<rparr>, \<lparr>buf = [], cap = 10\<rparr>],
                 clock = (\<lambda>n. 0), reads = 0\<rparr>"]
        unregister_removes [of 9 "\<lparr>requests = Some [(7, 0), (8, 1)], done_ch = DoneOpen,
                 chans = [\<lparr>buf = [], cap = 10\<rparr>, \<lparr>buf = [], cap = 10\<rparr>],
                 clock = (\<lambda>n. 0), reads = 0\<rparr>"]
  by simp

subsection \<open>Sequences of \<open>register\<close> and \<open>unregister\<close>\<close>

lemma register_keys:
  assumes "requests s = Some m"
  shows "\<exists>q s' m'. register req s = Inr (q, s') \<and> requests s' = Some m' \<and>
           fst ` set m' = insert req (fst ` set m) \<and>
           (distinct (map fst m) \<longrightarrow> distinct (map fst m'))"
proof (cases "map_of m req")
  case None
  then have "req \<notin> fst ` set m" by (simp add: map_of_eq_None_iff)
  with register_fresh [OF assms None] show ?thesis by simp
next
  case (Some q)
  then have "req \<in> fst ` set m" by (auto dest: map_of_SomeD intro: rev_image_eqI)
  moreover from assms Some have "register req s = Inr (q, s)"
    by (simp add: register_found lookup_def)
  ultimately show ?thesis using assms by (auto simp: insert_absorb)
qed

lemma unregister_keys:
  assumes "requests s = Some m"
  shows "\<exists>m'. requests (unregister req s) = Some m' \<and>
           fst ` set m' = fst ` set m - {req} \<and>
           (distinct (map fst m) \<longrightarrow> distinct (map fst m'))"
  using assms by (auto simp: unregister_def AList.delete_eq distinct_map_filter image_iff)

lemma apply_call_keys:
  assumes "requests s = Some m"
  shows "\<exists>s' m'. apply_call c s = Inr s' \<and> requests s' = Some m' \<and>
           fst ` set m' = live_step (fst ` set m) c \<and>
           (distinct (map fst m) \<longrightarrow> distinct (map fst m'))"
proof (cases c)
  case (Register req)
  from register_keys [OF assms, of req] show ?thesis
    unfolding Register by auto
next
  case (Unregister req)
  from unregister_keys [OF assms, of req] show ?thesis
    unfolding Unregister by auto
qed

lemma run_keys:
  "requests s = Some m \<Longrightarrow> distinct (map fst m) \<Longrightarrow>
   \<exists>s' m'. run cs s = Inr s' \<and> requests s' = Some m' \<and>
     fst ` set m' = foldl live_step (fst ` set m) cs \<and> distinct (map fst m')"
proof (induction cs arbitrary: s m)
  case Nil
  then show ?case by simp
next
  case (Cons c cs)
  from apply_call_keys [OF Cons.prems(1), of c] Cons.prems(2)
  obtain s1 m1 where 1: "apply_call c s = Inr s1" "requests s1 = Some m1"
    "fst ` set m1 = live_step (fst ` set m) c" "distinct (map fst m1)"
    by blast
  from Cons.IH [OF 1(2) 1(4)] 1(1) 1(3) show ?case by simp
qed

lemma live_snoc: "live (cs @ [c]) = live_step (live cs) c"
  by (simp add: live_def)

text \<open>
  \<open>live\<close> is what the words say: the requests with a \<open>Register\<close> in the sequence after
  which no \<open>Unregister\<close> of the same request follows.
\<close>

lemma live_iff:
  "r \<in> live cs \<longleftrightarrow> (\<exists>pre post. cs = pre @ Register r # post \<and> Unregister r \<notin> set post)"
proof (induction cs rule: rev_induct)
  case Nil
  then show ?case by (simp add: live_def)
next
  case (snoc c cs)
  show ?case
  proof (cases "c = Register r")
    case True
    have "cs @ [c] = cs @ Register r # [] \<and> Unregister r \<notin> set []" using True by simp
    then have "\<exists>pre post. cs @ [c] = pre @ Register r # post \<and> Unregister r \<notin> set post"
      by blast
    with True show ?thesis by (simp add: live_snoc)
  next
    case nreg: False
    show ?thesis
    proof (cases "c = Unregister r")
      case True
      have "\<not> (\<exists>pre post. cs @ [c] = pre @ Register r # post \<and> Unregister r \<notin> set post)"
      proof
        assume "\<exists>pre post. cs @ [c] = pre @ Register r # post \<and> Unregister r \<notin> set post"
        then obtain pre post where e: "cs @ [c] = pre @ Register r # post"
          and n: "Unregister r \<notin> set post" by blast
        from e nreg have "post \<noteq> []" by (cases post) auto
        with e have "last post = c" by (metis last_appendR last_snoc list.distinct(1) last_ConsR)
        with \<open>post \<noteq> []\<close> True n show False by (metis last_in_set)
      qed
      with True show ?thesis by (simp add: live_snoc)
    next
      case False
      have l: "r \<in> live (cs @ [c]) \<longleftrightarrow> r \<in> live cs"
        using nreg False by (cases c) (auto simp: live_snoc)
      have "(\<exists>pre post. cs @ [c] = pre @ Register r # post \<and> Unregister r \<notin> set post) \<longleftrightarrow>
            (\<exists>pre post. cs = pre @ Register r # post \<and> Unregister r \<notin> set post)"
      proof
        assume "\<exists>pre post. cs @ [c] = pre @ Register r # post \<and> Unregister r \<notin> set post"
        then obtain pre post where e: "cs @ [c] = pre @ Register r # post"
          and n: "Unregister r \<notin> set post" by blast
        from e nreg have ne: "post \<noteq> []" by (cases post) auto
        then obtain post' where p: "post = post' @ [c]"
          using e by (metis append_butlast_last_id last_appendR last_snoc list.distinct(1) last_ConsR)
        with e have "cs = pre @ Register r # post'" by simp
        moreover from n p have "Unregister r \<notin> set post'" by simp
        ultimately show "\<exists>pre post. cs = pre @ Register r # post \<and> Unregister r \<notin> set post"
          by blast
      next
        assume "\<exists>pre post. cs = pre @ Register r # post \<and> Unregister r \<notin> set post"
        then obtain pre post where e: "cs = pre @ Register r # post"
          and n: "Unregister r \<notin> set post" by blast
        from e have "cs @ [c] = pre @ Register r # (post @ [c])" by simp
        moreover from n False have "Unregister r \<notin> set (post @ [c])" by auto
        ultimately show "\<exists>pre post. cs @ [c] = pre @ Register r # post \<and> Unregister r \<notin> set post"
          by blast
      qed
      with l snoc.IH show ?thesis by simp
    qed
  qed
qed

text \<open>
  C5. From an empty registry, every finite sequence of \<open>register\<close> and \<open>unregister\<close> calls
  runs without a panic, and afterwards the number of entries is the number of distinct
  requests that were registered and not unregistered since; the entries are exactly those
  requests, one entry each.
\<close>

theorem registry_size_is_live_count:
  assumes "requests s = Some []"
  shows "\<exists>s'. run cs s = Inr s' \<and>
           length (registered s') = card (live cs) \<and>
           distinct (map fst (registered s')) \<and>
           fst ` set (registered s') = live cs \<and>
           live cs = {r. \<exists>pre post. cs = pre @ Register r # post \<and> Unregister r \<notin> set post}"
proof -
  from run_keys [OF assms, of cs]
  obtain s' m' where r: "run cs s = Inr s'" "requests s' = Some m'"
    "fst ` set m' = live cs" "distinct (map fst m')"
    by (auto simp: live_def)
  from r(4) have "card (set (map fst m')) = length (map fst m')" by (rule distinct_card)
  with r(3) have "length m' = card (live cs)" by simp
  moreover have "live cs = {r. \<exists>pre post. cs = pre @ Register r # post \<and> Unregister r \<notin> set post}"
    using live_iff by blast
  ultimately show ?thesis using r by simp
qed


text \<open>An instance, with a repeated registration and an unregistration of an unknown request.\<close>

theorem registry_size_is_live_count_witness:
  "requests (Start (NewStreamHandler (\<lambda>n. 0))) = Some [] \<and>
   (\<exists>s'. run [Register 1, Register 2, Register 1, Unregister 2, Unregister 3, Register 4]
            (Start (NewStreamHandler (\<lambda>n. 0))) = Inr s' \<and>
         length (registered s') = 2 \<and>
         fst ` set (registered s') = {1, 4})"
proof -
  have h: "requests (Start (NewStreamHandler (\<lambda>n. 0))) = Some []"
    by (simp add: Start_def NewStreamHandler_def)
  have l: "live [Register 1, Register 2, Register 1, Unregister 2, Unregister 3, Register 4]
             = {1, 4}"
    by (auto simp: live_def)
  show ?thesis
    using h registry_size_is_live_count
      [OF h, of "[Register 1, Register 2, Register 1, Unregister 2, Unregister 3, Register 4]"]
    unfolding l by auto
qed

section \<open>Properties of the broadcast\<close>

lemma writeToRequests_eq:
  "writeToRequests eventBytes s =
     (None, s\<lparr>chans := fold (\<lambda>(req, c). send_nb c (frame eventBytes)) (registered s) (chans s)\<rparr>)"
  by (simp add: writeToRequests_def buffer_Write_def frame_def)

lemma length_send_nb [simp]: "length (send_nb c v h) = length h"
  by (simp add: send_nb_def)

lemma send_nb_other: "c' \<noteq> c \<Longrightarrow> send_nb c v h ! c' = h ! c'"
  by (simp add: send_nb_def)

lemma send_nb_same:
  "c < length h \<Longrightarrow>
   send_nb c v h ! c =
     (if length (buf (h ! c)) < cap (h ! c) then (h ! c)\<lparr>buf := buf (h ! c) @ [v]\<rparr> else h ! c)"
  by (simp add: send_nb_def)

lemma length_fold_send [simp]:
  "length (fold (\<lambda>(req, c). send_nb c v) m h) = length h"
  by (induction m arbitrary: h) (auto split: prod.splits)

lemma fold_send_other:
  "c \<notin> snd ` set m \<Longrightarrow> fold (\<lambda>(req, c). send_nb c v) m h ! c = h ! c"
proof (induction m arbitrary: h)
  case Nil
  then show ?case by simp
next
  case (Cons e m)
  obtain r c' where e: "e = (r, c')" by (cases e)
  with Cons.prems have "c \<noteq> c'" "c \<notin> snd ` set m" by auto
  with Cons.IH [of "send_nb c' v h"] e show ?case by (simp add: send_nb_other)
qed

lemma fold_send_same:
  "distinct (map snd m) \<Longrightarrow> c \<in> snd ` set m \<Longrightarrow> c < length h \<Longrightarrow>
   fold (\<lambda>(req, c). send_nb c v) m h ! c =
     (if length (buf (h ! c)) < cap (h ! c) then (h ! c)\<lparr>buf := buf (h ! c) @ [v]\<rparr> else h ! c)"
proof (induction m arbitrary: h)
  case Nil
  then show ?case by simp
next
  case (Cons e m)
  obtain r c' where e: "e = (r, c')" by (cases e)
  show ?case
  proof (cases "c = c'")
    case True
    with Cons.prems(1) e have "c \<notin> snd ` set m" by auto
    then have "fold (\<lambda>(req, c). send_nb c v) m (send_nb c' v h) ! c = send_nb c' v h ! c"
      by (rule fold_send_other)
    with True e Cons.prems(3) show ?thesis by (simp add: send_nb_same)
  next
    case False
    with Cons.prems e have d: "distinct (map snd m)" and i: "c \<in> snd ` set m" by auto
    from Cons.prems(3) have l: "c < length (send_nb c' v h)" by simp
    from Cons.IH [OF d i l] False e show ?thesis by (simp add: send_nb_other)
  qed
qed

text \<open>
  The order in which the \<^verbatim>\<open>range\<close> visits the entries does not matter: two sends of the same
  value commute, so every arrangement of the same entries leaves the same channels.
\<close>

lemma send_nb_commute: "send_nb c v (send_nb c' v h) = send_nb c' v (send_nb c v h)"
  by (cases "c = c'") (auto simp: send_nb_def list_update_swap)


lemma fold_send_perm:
  fixes m :: "(request \<times> chan_ref) list"
  assumes "mset m' = mset m"
  shows "fold (\<lambda>(req, c). send_nb c v) m' h = fold (\<lambda>(req, c). send_nb c v) m h"
proof -
  have c: "(\<lambda>(req, c). send_nb c v) x \<circ> (\<lambda>(req, c). send_nb c v) y =
        (\<lambda>(req, c). send_nb c v) y \<circ> (\<lambda>(req, c). send_nb c v) x"
    for x y :: "request \<times> chan_ref"
    using send_nb_commute [of "snd x" v "snd y"] by (simp add: fun_eq_iff case_prod_beta)
  have "fold (\<lambda>(req, c). send_nb c v) m' = fold (\<lambda>(req, c). send_nb c v) m"
  proof (rule fold_multiset_equiv)
    show "mset m' = mset m" by (rule assms)
  qed (rule c)
  then show ?thesis by simp
qed


lemma writeToRequests_order:
  assumes "requests s = Some m" and "mset m' = mset m"
  shows "chans (snd (writeToRequests eventBytes (s\<lparr>requests := Some m'\<rparr>))) =
         chans (snd (writeToRequests eventBytes s))"
  using assms(1) fold_send_perm [OF assms(2)] by (simp add: writeToRequests_eq)

subsection \<open>Well-formedness is maintained\<close>

lemma wellformed_iff:
  "wellformed s \<longleftrightarrow>
     distinct (map fst (registered s)) \<and> distinct (map snd (registered s)) \<and>
     (\<forall>c \<in> snd ` set (registered s).
        c < length (chans s) \<and> cap (chans s ! c) = 10 \<and> length (buf (chans s ! c)) \<le> 10)"
  unfolding wellformed_def list_all_iff streamEventBufferSize_def
  by (rule arg_cong [where f = "\<lambda>P. _ \<and> _ \<and> P"]) force

lemma wellformed_Start: "wellformed (Start s)"
  by (simp add: wellformed_iff Start_def registered_def)

lemma chans_unregister [simp]: "chans (unregister req s) = chans s"
  by (simp add: unregister_def)

lemma wellformed_unregister:
  assumes "wellformed s"
  shows "wellformed (unregister req s)"
proof -
  let ?m = "filter (\<lambda>e. fst e \<noteq> req) (registered s)"
  from assms have "distinct (map fst ?m)" "distinct (map snd ?m)"
    by (simp_all add: wellformed_iff distinct_map_filter)
  moreover have "snd ` set ?m \<subseteq> snd ` set (registered s)" by auto
  ultimately show ?thesis
    using assms unfolding wellformed_iff unregister_registered chans_unregister by blast
qed

lemma wellformed_register:
  assumes "wellformed s" and "register req s = Inr (q, s')"
  shows "wellformed s'"
proof (cases "requests s")
  case None
  with assms(2) show ?thesis by (simp add: register_nil)
next
  case (Some m)
  show ?thesis
  proof (cases "map_of m req")
    case (Some q')
    with \<open>requests s = Some m\<close> have "register req s = Inr (q', s)"
      by (simp add: register_found lookup_def)
    with assms show ?thesis by simp
  next
    case None
    from register_fresh [OF \<open>requests s = Some m\<close> None] assms(2)
    have s': "s' = s\<lparr>chans := chans s @ [\<lparr>buf = [], cap = streamEventBufferSize\<rparr>],
                      requests := Some (m @ [(req, length (chans s))])\<rparr>"
      by simp
    from None have k: "req \<notin> fst ` set m" by (simp add: map_of_eq_None_iff)
    from assms(1) \<open>requests s = Some m\<close>
    have w: "distinct (map fst m)" "distinct (map snd m)"
      "\<forall>c \<in> snd ` set m. c < length (chans s) \<and> cap (chans s ! c) = 10 \<and>
         length (buf (chans s ! c)) \<le> 10"
      by (simp_all add: wellformed_iff)
    from w(3) have f: "length (chans s) \<notin> snd ` set m" by auto
    show ?thesis
      unfolding wellformed_iff s' using w k f
      by (auto simp: nth_append streamEventBufferSize_def)
  qed
qed

lemma wellformed_writeToRequests:
  assumes "wellformed s"
  shows "wellformed (snd (writeToRequests eventBytes s))"
proof -
  let ?h = "fold (\<lambda>(req, c). send_nb c (frame eventBytes)) (registered s) (chans s)"
  have r: "registered (s\<lparr>chans := ?h\<rparr>) = registered s" by (simp add: registered_def)
  have "c < length ?h \<and> cap (?h ! c) = 10 \<and> length (buf (?h ! c)) \<le> 10"
    if c: "c \<in> snd ` set (registered s)" for c
  proof -
    from assms c have b: "c < length (chans s)" "cap (chans s ! c) = 10"
      "length (buf (chans s ! c)) \<le> 10" by (auto simp: wellformed_iff)
    from assms have d: "distinct (map snd (registered s))" by (simp add: wellformed_iff)
    from fold_send_same [OF d c b(1), of "frame eventBytes"] b show ?thesis by auto
  qed
  with assms show ?thesis by (simp add: writeToRequests_eq wellformed_iff r)
qed

subsection \<open>The broadcast\<close>

text \<open>
  C1. In a well-formed state \<open>writeToRequests\<close> returns (it is a total function, so it
  does not block) with a nil error, and for every registered channel: when fewer than 10
  frames are pending, the same frame, \<open>frame eventBytes\<close>, is appended to it; when 10 frames
  are pending the channel is left as it is, and this changes nothing for the others.
  Channels that are not registered, the map and \<^verbatim>\<open>sh.done\<close> are untouched, and the state
  stays well-formed.
\<close>

theorem broadcast_delivers:
  assumes "wellformed s"
  shows "\<exists>s'. writeToRequests eventBytes s = (None, s') \<and>
           requests s' = requests s \<and> done_ch s' = done_ch s \<and>
           length (chans s') = length (chans s) \<and>
           (\<forall>(req, c) \<in> set (registered s).
              (length (buf (chans s ! c)) < 10 \<longrightarrow>
                 chans s' ! c = (chans s ! c)\<lparr>buf := buf (chans s ! c) @ [frame eventBytes]\<rparr>) \<and>
              (length (buf (chans s ! c)) = 10 \<longrightarrow> chans s' ! c = chans s ! c)) \<and>
           (\<forall>c. c \<notin> snd ` set (registered s) \<longrightarrow> chans s' ! c = chans s ! c) \<and>
           wellformed s'"
proof -
  let ?h = "fold (\<lambda>(req, c). send_nb c (frame eventBytes)) (registered s) (chans s)"
  let ?s' = "s\<lparr>chans := ?h\<rparr>"
  have e: "writeToRequests eventBytes s = (None, ?s')" by (rule writeToRequests_eq)
  have 1: "(length (buf (chans s ! c)) < 10 \<longrightarrow>
              ?h ! c = (chans s ! c)\<lparr>buf := buf (chans s ! c) @ [frame eventBytes]\<rparr>) \<and>
           (length (buf (chans s ! c)) = 10 \<longrightarrow> ?h ! c = chans s ! c)"
    if "(req, c) \<in> set (registered s)" for req c
  proof -
    from that have c: "c \<in> snd ` set (registered s)" by (auto intro: rev_image_eqI)
    with assms have b: "c < length (chans s)" "cap (chans s ! c) = 10"
      by (auto simp: wellformed_iff)
    from assms have d: "distinct (map snd (registered s))" by (simp add: wellformed_iff)
    from fold_send_same [OF d c b(1), of "frame eventBytes"] b show ?thesis by simp
  qed
  have 2: "?h ! c = chans s ! c" if "c \<notin> snd ` set (registered s)" for c
    using that by (rule fold_send_other)
  from wellformed_writeToRequests [OF assms, of eventBytes] e have 3: "wellformed ?s'" by simp
  show ?thesis
    unfolding e using 1 2 3 by auto
qed



text \<open>An instance: one subscriber with room and one whose channel holds 10 frames.\<close>

theorem broadcast_delivers_witness:
  "wellformed \<lparr>requests = Some [(1, 0), (2, 1)], done_ch = DoneOpen,
       chans = [\<lparr>buf = [''a''], cap = 10\<rparr>, \<lparr>buf = replicate 10 ''b'', cap = 10\<rparr>],
       clock = (\<lambda>n. 0), reads = 0\<rparr> \<and>
   (\<exists>s'. writeToRequests ''{}''
           \<lparr>requests = Some [(1, 0), (2, 1)], done_ch = DoneOpen,
            chans = [\<lparr>buf = [''a''], cap = 10\<rparr>, \<lparr>buf = replicate 10 ''b'', cap = 10\<rparr>],
            clock = (\<lambda>n. 0), reads = 0\<rparr> = (None, s') \<and>
         chans s' ! 0 = \<lparr>buf = [''a'', ''data:{}'' @ [CHR 0x0A, CHR 0x0A]], cap = 10\<rparr> \<and>
         chans s' ! 1 = \<lparr>buf = replicate 10 ''b'', cap = 10\<rparr>)"
proof -
  let ?s = "\<lparr>requests = Some [(1, 0), (2, 1)], done_ch = DoneOpen,
       chans = [\<lparr>buf = [''a''], cap = 10\<rparr>, \<lparr>buf = replicate 10 ''b'', cap = 10\<rparr>],
       clock = (\<lambda>n. 0), reads = 0\<rparr>"
  have w: "wellformed ?s" by (simp add: wellformed_def streamEventBufferSize_def)
  from broadcast_delivers [OF w, of "''{}''"]
  obtain s' where "writeToRequests ''{}'' ?s = (None, s')"
    "\<forall>(req, c) \<in> set (registered ?s).
              (length (buf (chans ?s ! c)) < 10 \<longrightarrow>
                 chans s' ! c = (chans ?s ! c)\<lparr>buf := buf (chans ?s ! c) @ [frame ''{}'']\<rparr>) \<and>
              (length (buf (chans ?s ! c)) = 10 \<longrightarrow> chans s' ! c = chans ?s ! c)"
    by blast
  then have "writeToRequests ''{}'' ?s = (None, s') \<and>
         chans s' ! 0 = \<lparr>buf = [''a'', ''data:{}'' @ [CHR 0x0A, CHR 0x0A]], cap = 10\<rparr> \<and>
         chans s' ! 1 = \<lparr>buf = replicate 10 ''b'', cap = 10\<rparr>"
    by (simp add: frame_def)
  with w show ?thesis by blast
qed

text \<open>
  C10. \<open>writeToRequests\<close> returns nil for every frame and every state. When the pool
  record is marshalled, \<open>publishThreadPools\<close> returns nil together with the state that
  \<open>writeToRequests\<close> leaves. The only error either publishing function ever returns is
  the marshaller's, so no outcome of a delivery reaches the loop.
\<close>

theorem delivery_never_reported:
  "fst (writeToRequests eventBytes s) = None \<and>
   (\<forall>js. marshal (ThreadPoolMetric (threadPoolMetric pool (clock s (reads s)))) = Inr js \<longrightarrow>
      publishThreadPools marshal pool s =
        (None, snd (writeToRequests js (snd (timeNow s))))) \<and>
   (\<forall>err. fst (publishThreadPools marshal pool s) = Some err \<longleftrightarrow>
      marshal (ThreadPoolMetric (threadPoolMetric pool (clock s (reads s)))) = Inl err) \<and>
   (\<forall>err. fst (publishMetrics marshal cb s) = Some err \<longleftrightarrow>
      marshal (CmdMetric (cmdMetric cb (fst (timeNow s)) (fst (currentTime (snd (timeNow s))))))
        = Inl err)"
proof (intro conjI allI impI)
  show "fst (writeToRequests eventBytes s) = None" by (simp add: writeToRequests_eq)
  show "publishThreadPools marshal pool s = (None, snd (writeToRequests js (snd (timeNow s))))"
    if "marshal (ThreadPoolMetric (threadPoolMetric pool (clock s (reads s)))) = Inr js" for js
    using that by (simp add: publishThreadPools_def timeNow_def writeToRequests_eq)
  show "fst (publishThreadPools marshal pool s) = Some err \<longleftrightarrow>
      marshal (ThreadPoolMetric (threadPoolMetric pool (clock s (reads s)))) = Inl err" for err
    by (simp add: publishThreadPools_def timeNow_def writeToRequests_eq split: sum.splits)
  show "fst (publishMetrics marshal cb s) = Some err \<longleftrightarrow>
      marshal (CmdMetric (cmdMetric cb (fst (timeNow s)) (fst (currentTime (snd (timeNow s))))))
        = Inl err" for err
    by (simp add: publishMetrics_def timeNow_def currentTime_def writeToRequests_eq
          split: sum.splits)
qed


text \<open>An instance, with a marshaller that encodes a record as its name.\<close>

theorem delivery_never_reported_witness:
  "(\<lambda>v. case v of CmdMetric m \<Rightarrow> Inr (Name m) | ThreadPoolMetric p \<Rightarrow> Inr (tp_Name p))
     (ThreadPoolMetric (threadPoolMetric
        \<lparr>pool_Name = ''p'', pool_Max = 10, ActiveCount = 0,
         Executed = (\<lambda>t. 1), MaxActiveRequests = (\<lambda>t. 1)\<rparr>
        (clock \<lparr>requests = Some [(1, 0)], done_ch = DoneOpen,
                chans = [\<lparr>buf = [], cap = 10\<rparr>], clock = (\<lambda>n. 0), reads = 0\<rparr>
           (reads \<lparr>requests = Some [(1, 0)], done_ch = DoneOpen,
                   chans = [\<lparr>buf = [], cap = 10\<rparr>], clock = (\<lambda>n. 0), reads = 0\<rparr>))))
     = Inr ''p'' \<and>
   publishThreadPools
     (\<lambda>v. case v of CmdMetric m \<Rightarrow> Inr (Name m) | ThreadPoolMetric p \<Rightarrow> Inr (tp_Name p))
     \<lparr>pool_Name = ''p'', pool_Max = 10, ActiveCount = 0,
      Executed = (\<lambda>t. 1), MaxActiveRequests = (\<lambda>t. 1)\<rparr>
     \<lparr>requests = Some [(1, 0)], done_ch = DoneOpen,
      chans = [\<lparr>buf = [], cap = 10\<rparr>], clock = (\<lambda>n. 0), reads = 0\<rparr>
   = (None,
      \<lparr>requests = Some [(1, 0)], done_ch = DoneOpen,
       chans = [\<lparr>buf = [''data:p'' @ [CHR 0x0A, CHR 0x0A]], cap = 10\<rparr>],
       clock = (\<lambda>n. 0), reads = 1\<rparr>)"
  using delivery_never_reported
    [of "[]"
        "\<lparr>requests = Some [(1, 0)], done_ch = DoneOpen,
          chans = [\<lparr>buf = [], cap = 10\<rparr>], clock = (\<lambda>n. 0), reads = 0\<rparr>"
        "\<lambda>v. case v of CmdMetric m \<Rightarrow> Inr (Name m) | ThreadPoolMetric p \<Rightarrow> Inr (tp_Name p)"
        "\<lparr>pool_Name = ''p'', pool_Max = 10, ActiveCount = 0,
          Executed = (\<lambda>t. 1), MaxActiveRequests = (\<lambda>t. 1)\<rparr>"]
  by (simp add: threadPoolMetric_def timeNow_def writeToRequests_eq frame_def send_nb_def)

section \<open>Properties of publishing and of the loop\<close>

lemma publishMetrics_eq:
  "publishMetrics marshal cb s =
     (case marshal (CmdMetric (cmdMetric cb (clock s (reads s))
                      (clock s (Suc (reads s)) sdiv 1000000))) of
        Inl err \<Rightarrow> (Some err, s\<lparr>reads := reads s + 2\<rparr>)
      | Inr eventBytes \<Rightarrow> writeToRequests eventBytes (s\<lparr>reads := reads s + 2\<rparr>))"
  by (simp add: publishMetrics_def timeNow_def currentTime_def writeToRequests_eq
        split: sum.splits)

lemma publishThreadPools_eq:
  "publishThreadPools marshal pool s =
     (case marshal (ThreadPoolMetric (threadPoolMetric pool (clock s (reads s)))) of
        Inl err \<Rightarrow> (Some err, s\<lparr>reads := reads s + 1\<rparr>)
      | Inr eventBytes \<Rightarrow> writeToRequests eventBytes (s\<lparr>reads := reads s + 1\<rparr>))"
  by (simp add: publishThreadPools_def timeNow_def writeToRequests_eq split: sum.splits)

lemma wellformed_reads [simp]: "wellformed (s\<lparr>reads := n\<rparr>) = wellformed s"
  by (simp add: wellformed_def registered_def)

lemma registered_reads [simp]: "registered (s\<lparr>reads := n\<rparr>) = registered s"
  by (simp add: registered_def)

lemma wellformed_publishMetrics:
  "wellformed s \<Longrightarrow> wellformed (snd (publishMetrics marshal cb s))"
  by (simp add: publishMetrics_eq wellformed_writeToRequests split: sum.splits)

lemma wellformed_publishThreadPools:
  "wellformed s \<Longrightarrow> wellformed (snd (publishThreadPools marshal pool s))"
  by (simp add: publishThreadPools_eq wellformed_writeToRequests split: sum.splits)

lemma wellformed_publishAll:
  "wellformed s \<Longrightarrow> wellformed (publishAll marshal cbs s)"
proof (induction cbs arbitrary: s)
  case Nil
  then show ?case by simp
next
  case (Cons cb cbs)
  let ?s1 = "snd (publishMetrics marshal cb s)"
  let ?s2 = "snd (publishThreadPools marshal (cb_executorPool cb) ?s1)"
  from Cons.prems have "wellformed ?s2"
    by (intro wellformed_publishThreadPools wellformed_publishMetrics)
  then have "wellformed (publishAll marshal cbs ?s2)" by (rule Cons.IH)
  then show ?case by (simp add: split_beta)
qed

lemma wellformed_run:
  "wellformed s \<Longrightarrow> run cs s = Inr s' \<Longrightarrow> wellformed s'"
proof (induction cs arbitrary: s)
  case Nil
  then show ?case by simp
next
  case (Cons c cs)
  from Cons.prems(2) obtain s1 where 1: "apply_call c s = Inr s1" and 2: "run cs s1 = Inr s'"
    by (auto split: sum.splits)
  have "wellformed s1"
  proof (cases c)
    case (Register req)
    with 1 obtain q where "register req s = Inr (q, s1)" by (auto split: sum.splits)
    with Cons.prems(1) show ?thesis by (rule wellformed_register)
  next
    case (Unregister req)
    with 1 Cons.prems(1) show ?thesis by (auto intro: wellformed_unregister)
  qed
  then show ?case using 2 by (rule Cons.IH)
qed

text \<open>What the publishing functions and the loop leave alone.\<close>

lemma writeToRequests_frame [simp]:
  "requests (snd (writeToRequests e s)) = requests s"
  "done_ch (snd (writeToRequests e s)) = done_ch s"
  "clock (snd (writeToRequests e s)) = clock s"
  "reads (snd (writeToRequests e s)) = reads s"
  "length (chans (snd (writeToRequests e s))) = length (chans s)"
  by (simp_all add: writeToRequests_eq)

lemma publishMetrics_frame [simp]:
  "requests (snd (publishMetrics marshal cb s)) = requests s"
  "done_ch (snd (publishMetrics marshal cb s)) = done_ch s"
  "clock (snd (publishMetrics marshal cb s)) = clock s"
  "reads (snd (publishMetrics marshal cb s)) = reads s + 2"
  "length (chans (snd (publishMetrics marshal cb s))) = length (chans s)"
  by (simp_all add: publishMetrics_eq split: sum.splits)

lemma publishThreadPools_frame [simp]:
  "requests (snd (publishThreadPools marshal pool s)) = requests s"
  "done_ch (snd (publishThreadPools marshal pool s)) = done_ch s"
  "clock (snd (publishThreadPools marshal pool s)) = clock s"
  "reads (snd (publishThreadPools marshal pool s)) = reads s + 1"
  "length (chans (snd (publishThreadPools marshal pool s))) = length (chans s)"
  by (simp_all add: publishThreadPools_eq split: sum.splits)



lemma publishAll_frame [simp]:
  "requests (publishAll marshal cbs s) = requests s"
  "done_ch (publishAll marshal cbs s) = done_ch s"
  "clock (publishAll marshal cbs s) = clock s"
  "reads (publishAll marshal cbs s) = reads s + 3 * length cbs"
  "length (chans (publishAll marshal cbs s)) = length (chans s)"
  by (induction cbs arbitrary: s) (simp_all add: split_beta)

lemma loop_frame [simp]:
  "requests (snd (loop marshal evs s)) = requests s"
  "done_ch (snd (loop marshal evs s)) = done_ch s"
  "length (chans (snd (loop marshal evs s))) = length (chans s)"
  by (induction marshal evs s rule: loop.induct) simp_all

lemma wellformed_loop:
  "wellformed s \<Longrightarrow> wellformed (snd (loop marshal evs s))"
  by (induction marshal evs s rule: loop.induct) (simp_all add: wellformed_publishAll)

lemma loop_append:
  "loop marshal (evs @ evs') s =
     (case loop marshal evs s of
        (Running, s') \<Rightarrow> loop marshal evs' s'
      | (Returned, s') \<Rightarrow> (Returned, s'))"
  by (induction marshal evs s rule: loop.induct) simp_all

lemma loop_Running_iff:
  "fst (loop marshal evs s) = Returned \<longleftrightarrow> done_ch s = DoneClosed \<and> Done \<in> set evs"
  by (induction marshal evs s rule: loop.induct) auto


subsection \<open>The frames\<close>

lemma writeToRequests_chans_registered:
  assumes "wellformed s" and "(req, c) \<in> set (registered s)"
  shows "chans (snd (writeToRequests e s)) ! c =
           (if length (buf (chans s ! c)) < 10
            then (chans s ! c)\<lparr>buf := buf (chans s ! c) @ [frame e]\<rparr>
            else chans s ! c)"
proof -
  from assms(2) have c: "c \<in> snd ` set (registered s)" by (auto intro: rev_image_eqI)
  with assms(1) have b: "c < length (chans s)" "cap (chans s ! c) = 10"
    by (auto simp: wellformed_iff)
  from assms(1) have d: "distinct (map snd (registered s))" by (simp add: wellformed_iff)
  from fold_send_same [OF d c b(1), of "frame e"] b show ?thesis
    by (simp add: writeToRequests_eq)
qed

lemma writeToRequests_chans_other:
  "c \<notin> snd ` set (registered s) \<Longrightarrow> chans (snd (writeToRequests e s)) ! c = chans s ! c"
  by (simp add: writeToRequests_eq fold_send_other)

lemma writeToRequests_chans_cases:
  assumes "wellformed s"
  shows "chans (snd (writeToRequests e s)) ! c = chans s ! c \<or>
         chans (snd (writeToRequests e s)) ! c =
           (chans s ! c)\<lparr>buf := buf (chans s ! c) @ [frame e]\<rparr>"
proof (cases "c \<in> snd ` set (registered s)")
  case True
  then obtain req where "(req, c) \<in> set (registered s)" by auto
  from writeToRequests_chans_registered [OF assms this, of e] show ?thesis
    by (simp split: if_splits)
next
  case False
  then show ?thesis by (simp add: writeToRequests_chans_other)
qed

lemma writeToRequests_delivers:
  assumes "wellformed s"
  shows "\<exists>s'. writeToRequests js (s\<lparr>reads := n\<rparr>) = (None, s') \<and>
           (\<forall>(req, c) \<in> set (registered s).
              length (buf (chans s ! c)) < 10 \<longrightarrow>
                buf (chans s' ! c) =
                  buf (chans s ! c) @ [''data:'' @ js @ [CHR 0x0A, CHR 0x0A]]) \<and>
           (\<forall>c. chans s' ! c = chans s ! c \<or>
                chans s' ! c =
                  (chans s ! c)\<lparr>buf := buf (chans s ! c) @
                                         [''data:'' @ js @ [CHR 0x0A, CHR 0x0A]]\<rparr>)"
proof -
  let ?s2 = "s\<lparr>reads := n\<rparr>"
  let ?s' = "snd (writeToRequests js ?s2)"
  from assms have w: "wellformed ?s2" by simp
  have p: "writeToRequests js ?s2 = (None, ?s')" by (simp add: writeToRequests_eq)
  have 1: "buf (chans ?s' ! c) = buf (chans s ! c) @ [''data:'' @ js @ [CHR 0x0A, CHR 0x0A]]"
    if "(req, c) \<in> set (registered s)" "length (buf (chans s ! c)) < 10" for req c
    using writeToRequests_chans_registered [OF w, of req c js] that
    by (simp add: frame_def)
  have 2: "chans ?s' ! c = chans s ! c \<or>
           chans ?s' ! c =
             (chans s ! c)\<lparr>buf := buf (chans s ! c) @ [''data:'' @ js @ [CHR 0x0A, CHR 0x0A]]\<rparr>"
    for c
    using writeToRequests_chans_cases [OF w, of js c] by (simp add: frame_def)
  show ?thesis using p 1 2 by blast
qed

text \<open>
  C3. In a well-formed state, for both records that are published: when the command
  record (in \<open>publishMetrics\<close>) or the pool record (in \<open>publishThreadPools\<close>) is marshalled
  to \<open>js\<close>, the function returns nil and the frame it puts into the channels is exactly the
  bytes \<^verbatim>\<open>data:\<close>, then \<open>js\<close>, then two line feeds: that frame is appended to every
  registered channel with room, and every channel is either unchanged or longer by that one
  frame. When the marshaller fails, its error is the result (a value, not a panic), and
  nothing but the count of clock readings has changed.
\<close>

theorem frame_is_data_json_blank_line:
  assumes "wellformed s"
  shows "(\<forall>js. marshal (CmdMetric (cmdMetric cb (clock s (reads s))
                      (clock s (Suc (reads s)) sdiv 1000000))) = Inr js \<longrightarrow>
            (\<exists>s'. publishMetrics marshal cb s = (None, s') \<and>
               (\<forall>(req, c) \<in> set (registered s).
                  length (buf (chans s ! c)) < 10 \<longrightarrow>
                    buf (chans s' ! c) =
                      buf (chans s ! c) @ [''data:'' @ js @ [CHR 0x0A, CHR 0x0A]]) \<and>
               (\<forall>c. chans s' ! c = chans s ! c \<or>
                    chans s' ! c =
                      (chans s ! c)\<lparr>buf := buf (chans s ! c) @
                                             [''data:'' @ js @ [CHR 0x0A, CHR 0x0A]]\<rparr>))) \<and>
         (\<forall>err. marshal (CmdMetric (cmdMetric cb (clock s (reads s))
                      (clock s (Suc (reads s)) sdiv 1000000))) = Inl err \<longrightarrow>
            publishMetrics marshal cb s = (Some err, s\<lparr>reads := reads s + 2\<rparr>)) \<and>
         (\<forall>js. marshal (ThreadPoolMetric (threadPoolMetric pool (clock s (reads s)))) = Inr js \<longrightarrow>
            (\<exists>s'. publishThreadPools marshal pool s = (None, s') \<and>
               (\<forall>(req, c) \<in> set (registered s).
                  length (buf (chans s ! c)) < 10 \<longrightarrow>
                    buf (chans s' ! c) =
                      buf (chans s ! c) @ [''data:'' @ js @ [CHR 0x0A, CHR 0x0A]]) \<and>
               (\<forall>c. chans s' ! c = chans s ! c \<or>
                    chans s' ! c =
                      (chans s ! c)\<lparr>buf := buf (chans s ! c) @
                                             [''data:'' @ js @ [CHR 0x0A, CHR 0x0A]]\<rparr>))) \<and>
         (\<forall>err. marshal (ThreadPoolMetric (threadPoolMetric pool (clock s (reads s)))) = Inl err \<longrightarrow>
            publishThreadPools marshal pool s = (Some err, s\<lparr>reads := reads s + 1\<rparr>))"
proof (intro conjI allI impI)
  fix js
  assume "marshal (CmdMetric (cmdMetric cb (clock s (reads s))
                      (clock s (Suc (reads s)) sdiv 1000000))) = Inr js"
  then have "publishMetrics marshal cb s = writeToRequests js (s\<lparr>reads := reads s + 2\<rparr>)"
    by (simp add: publishMetrics_eq)
  with writeToRequests_delivers [OF assms, of js "reads s + 2"]
  show "\<exists>s'. publishMetrics marshal cb s = (None, s') \<and>
               (\<forall>(req, c) \<in> set (registered s).
                  length (buf (chans s ! c)) < 10 \<longrightarrow>
                    buf (chans s' ! c) =
                      buf (chans s ! c) @ [''data:'' @ js @ [CHR 0x0A, CHR 0x0A]]) \<and>
               (\<forall>c. chans s' ! c = chans s ! c \<or>
                    chans s' ! c =
                      (chans s ! c)\<lparr>buf := buf (chans s ! c) @
                                             [''data:'' @ js @ [CHR 0x0A, CHR 0x0A]]\<rparr>)"
    by simp
next
  fix err
  assume "marshal (CmdMetric (cmdMetric cb (clock s (reads s))
                      (clock s (Suc (reads s)) sdiv 1000000))) = Inl err"
  then show "publishMetrics marshal cb s = (Some err, s\<lparr>reads := reads s + 2\<rparr>)"
    by (simp add: publishMetrics_eq)
next
  fix js
  assume "marshal (ThreadPoolMetric (threadPoolMetric pool (clock s (reads s)))) = Inr js"
  then have "publishThreadPools marshal pool s = writeToRequests js (s\<lparr>reads := reads s + 1\<rparr>)"
    by (simp add: publishThreadPools_eq)
  with writeToRequests_delivers [OF assms, of js "reads s + 1"]
  show "\<exists>s'. publishThreadPools marshal pool s = (None, s') \<and>
               (\<forall>(req, c) \<in> set (registered s).
                  length (buf (chans s ! c)) < 10 \<longrightarrow>
                    buf (chans s' ! c) =
                      buf (chans s ! c) @ [''data:'' @ js @ [CHR 0x0A, CHR 0x0A]]) \<and>
               (\<forall>c. chans s' ! c = chans s ! c \<or>
                    chans s' ! c =
                      (chans s ! c)\<lparr>buf := buf (chans s ! c) @
                                             [''data:'' @ js @ [CHR 0x0A, CHR 0x0A]]\<rparr>)"
    by simp
next
  fix err
  assume "marshal (ThreadPoolMetric (threadPoolMetric pool (clock s (reads s)))) = Inl err"
  then show "publishThreadPools marshal pool s = (Some err, s\<lparr>reads := reads s + 1\<rparr>)"
    by (simp add: publishThreadPools_eq)
qed

text \<open>Facts about the examples.\<close>

lemma wellformed_one_subscriber: "wellformed one_subscriber"
  by (simp add: wellformed_def one_subscriber_def streamEventBufferSize_def)

lemma name_marshal_cmd:
  "name_marshal (CmdMetric (cmdMetric cb now cur)) =
     (if cb_Name cb = ''bad'' then Inl (Error ''unsupported'') else Inr (''cmd:'' @ cb_Name cb))"
  by (simp add: name_marshal_def cmdMetric_def)

lemma name_marshal_pool:
  "name_marshal (ThreadPoolMetric (threadPoolMetric pool now)) = Inr (''pool:'' @ pool_Name pool)"
  by (simp add: name_marshal_def threadPoolMetric_def)

text \<open>
  An instance of each case, for the command record and for the pool record: one that is
  encoded and one whose encoding fails.
\<close>

theorem frame_is_data_json_blank_line_witness:
  "wellformed one_subscriber \<and>
   name_marshal (CmdMetric (cmdMetric errorpercent_circuit
       (clock one_subscriber (reads one_subscriber))
       (clock one_subscriber (Suc (reads one_subscriber)) sdiv 1000000))) = Inr ''cmd:errorpercent'' \<and>
   (\<exists>s'. publishMetrics name_marshal errorpercent_circuit one_subscriber = (None, s') \<and>
         buf (chans s' ! 0) = [''data:cmd:errorpercent'' @ [CHR 0x0A, CHR 0x0A]]) \<and>
   name_marshal (CmdMetric (cmdMetric (errorpercent_circuit\<lparr>cb_Name := ''bad''\<rparr>)
       (clock one_subscriber (reads one_subscriber))
       (clock one_subscriber (Suc (reads one_subscriber)) sdiv 1000000)))
     = Inl (Error ''unsupported'') \<and>
   publishMetrics name_marshal (errorpercent_circuit\<lparr>cb_Name := ''bad''\<rparr>) one_subscriber =
     (Some (Error ''unsupported''), one_subscriber\<lparr>reads := 2\<rparr>) \<and>
   name_marshal (ThreadPoolMetric (threadPoolMetric (cb_executorPool errorpercent_circuit)
       (clock one_subscriber (reads one_subscriber)))) = Inr ''pool:errorpercent'' \<and>
   (\<exists>s'. publishThreadPools name_marshal (cb_executorPool errorpercent_circuit) one_subscriber
            = (None, s') \<and>
         buf (chans s' ! 0) = [''data:pool:errorpercent'' @ [CHR 0x0A, CHR 0x0A]]) \<and>
   (\<lambda>v. Inl (Error ''unsupported''))
      (ThreadPoolMetric (threadPoolMetric (cb_executorPool errorpercent_circuit)
         (clock one_subscriber (reads one_subscriber)))) = Inl (Error ''unsupported'') \<and>
   publishThreadPools (\<lambda>v. Inl (Error ''unsupported'')) (cb_executorPool errorpercent_circuit)
       one_subscriber =
     (Some (Error ''unsupported''), one_subscriber\<lparr>reads := 1\<rparr>)"
proof -
  note w = wellformed_one_subscriber
  have a: "name_marshal (CmdMetric (cmdMetric errorpercent_circuit
       (clock one_subscriber (reads one_subscriber))
       (clock one_subscriber (Suc (reads one_subscriber)) sdiv 1000000))) = Inr ''cmd:errorpercent''"
    by (simp add: name_marshal_cmd errorpercent_circuit_def)
  have b: "name_marshal (CmdMetric (cmdMetric (errorpercent_circuit\<lparr>cb_Name := ''bad''\<rparr>)
       (clock one_subscriber (reads one_subscriber))
       (clock one_subscriber (Suc (reads one_subscriber)) sdiv 1000000)))
     = Inl (Error ''unsupported'')"
    by (simp add: name_marshal_cmd)
  have c: "name_marshal (ThreadPoolMetric (threadPoolMetric (cb_executorPool errorpercent_circuit)
       (clock one_subscriber (reads one_subscriber)))) = Inr ''pool:errorpercent''"
    by (simp add: name_marshal_pool errorpercent_circuit_def)
  have r: "registered one_subscriber = [(1, 0)]" "chans one_subscriber ! 0 = \<lparr>buf = [], cap = 10\<rparr>"
    "reads one_subscriber = 0"
    by (simp_all add: one_subscriber_def)
  from frame_is_data_json_blank_line
         [OF w, where marshal = name_marshal and cb = errorpercent_circuit
            and pool = "cb_executorPool errorpercent_circuit"] a c
  have 1: "\<exists>s'. publishMetrics name_marshal errorpercent_circuit one_subscriber = (None, s') \<and>
         buf (chans s' ! 0) = [''data:cmd:errorpercent'' @ [CHR 0x0A, CHR 0x0A]]"
    and 2: "\<exists>s'. publishThreadPools name_marshal (cb_executorPool errorpercent_circuit)
                  one_subscriber = (None, s') \<and>
         buf (chans s' ! 0) = [''data:pool:errorpercent'' @ [CHR 0x0A, CHR 0x0A]]"
    by (simp_all add: r) blast+
  from frame_is_data_json_blank_line
         [OF w, where marshal = name_marshal and cb = "errorpercent_circuit\<lparr>cb_Name := ''bad''\<rparr>"
            and pool = "cb_executorPool errorpercent_circuit"] b
  have 3: "publishMetrics name_marshal (errorpercent_circuit\<lparr>cb_Name := ''bad''\<rparr>) one_subscriber =
     (Some (Error ''unsupported''), one_subscriber\<lparr>reads := 2\<rparr>)"
    by (simp add: r)
  from frame_is_data_json_blank_line
         [OF w, where marshal = "\<lambda>v. Inl (Error ''unsupported'')" and cb = errorpercent_circuit
            and pool = "cb_executorPool errorpercent_circuit"]
  have 4: "publishThreadPools (\<lambda>v. Inl (Error ''unsupported''))
       (cb_executorPool errorpercent_circuit) one_subscriber =
     (Some (Error ''unsupported''), one_subscriber\<lparr>reads := 1\<rparr>)"
    by (simp add: r)
  show ?thesis using w a b c 1 2 3 4 by simp
qed

subsection \<open>The loop\<close>




text \<open>
  C8. On a started handler the loop keeps running whatever it is offered; \<open>Stop\<close> then
  closes \<^verbatim>\<open>sh.done\<close>; and from then on the first receive from \<^verbatim>\<open>sh.done\<close> makes the loop
  return with the state it had at that moment: the offers that follow (\<open>post\<close>) broadcast
  nothing, and the registry map is the one the loop started with. Time is the sequence of
  offers: the loop returns in the very iteration that takes the receive, before any
  further tick.
\<close>

theorem loop_returns_on_stop:
  assumes "done_ch s = DoneOpen"
  shows "\<exists>s1 s2. loop marshal evs s = (Running, s1) \<and> Stop s1 = Inr s2 \<and>
           loop marshal (pre @ Done # post) s2 = (Returned, snd (loop marshal pre s2)) \<and>
           requests (snd (loop marshal (pre @ Done # post) s2)) = requests s"
proof -
  obtain st s1 where l: "loop marshal evs s = (st, s1)" by (cases "loop marshal evs s")
  from assms have "fst (loop marshal evs s) \<noteq> Returned" by (simp add: loop_Running_iff)
  with l have st: "st = Running" by (cases st) simp_all
  from l have "done_ch s1 = done_ch s" "requests s1 = requests s"
    using loop_frame [of marshal evs s] by simp_all
  with assms have o: "done_ch s1 = DoneOpen" and r1: "requests s1 = requests s" by simp_all
  let ?s2 = "s1\<lparr>done_ch := DoneClosed\<rparr>"
  from o have stop: "Stop s1 = Inr ?s2" by (simp add: Stop_def)
  obtain st' s3 where p: "loop marshal pre ?s2 = (st', s3)" by (cases "loop marshal pre ?s2")
  have d3: "done_ch s3 = DoneClosed" using loop_frame(2) [of marshal pre ?s2] p by simp
  have q: "loop marshal (pre @ Done # post) ?s2 = (Returned, s3)"
    using p d3 by (cases st') (simp_all add: loop_append)
  have "requests (snd (loop marshal (pre @ Done # post) ?s2)) = requests s"
    using r1 by simp
  with l st stop p q r1 show ?thesis by simp
qed


text \<open>An instance: a tick, a stop, and a tick offered after the stop has been observed.\<close>

theorem loop_returns_on_stop_witness:
  "done_ch one_subscriber = DoneOpen \<and>
   (\<exists>s1 s2. loop name_marshal [Tick [errorpercent_circuit], Done] one_subscriber = (Running, s1) \<and>
      Stop s1 = Inr s2 \<and>
      loop name_marshal ([] @ Done # [Tick [errorpercent_circuit]]) s2 =
        (Returned, snd (loop name_marshal [] s2)) \<and>
      requests (snd (loop name_marshal ([] @ Done # [Tick [errorpercent_circuit]]) s2)) =
        Some [(1, 0)])"
proof -
  have o: "done_ch one_subscriber = DoneOpen" by (simp add: one_subscriber_def)
  have r: "requests one_subscriber = Some [(1, 0)]" by (simp add: one_subscriber_def)
  from loop_returns_on_stop
    [OF o, of name_marshal "[Tick [errorpercent_circuit], Done]" "[]"
       "[Tick [errorpercent_circuit]]"]
  show ?thesis unfolding r using o by blast
qed

subsection \<open>The command record\<close>

text \<open>
  C7, as stated, fails. On the handler with one subscriber the first clock reading, \<open>now\<close>,
  is the instant 0, and the record that \<open>publishMetrics\<close> marshals has a \<open>Time\<close> that is not
  the millisecond of \<open>now\<close>: it comes from the later reading made by \<^verbatim>\<open>currentTime()\<close>, so
  two fields of one record reflect different instants. And not every count is queried:
  for a circuit with two fallback failures at \<open>now\<close> the record reports those two, but its
  count of fallback rejections is the zero value, which no rolling number supplied.
\<close>

theorem counts_and_time_counterexample:
  "fst (timeNow one_subscriber) = 0 \<and>
   fst (publishMetrics (instant_probe (fst (timeNow one_subscriber)))
          errorpercent_circuit one_subscriber) = Some (Error ''another instant'') \<and>
   Time (cmdMetric errorpercent_circuit (fst (timeNow one_subscriber))
           (fst (currentTime (snd (timeNow one_subscriber))))) \<noteq>
     fst (timeNow one_subscriber) sdiv 1000000 \<and>
   FallbackFailures (metrics errorpercent_circuit) (fst (timeNow one_subscriber)) = 2 \<and>
   RollingCountFallbackFailure
     (cmdMetric errorpercent_circuit (fst (timeNow one_subscriber))
        (fst (currentTime (snd (timeNow one_subscriber))))) = 2 \<and>
   RollingCountFallbackRejection
     (cmdMetric errorpercent_circuit (fst (timeNow one_subscriber))
        (fst (currentTime (snd (timeNow one_subscriber))))) = 0"
  by (simp add: publishMetrics_eq instant_probe_def cmdMetric_def timeNow_def currentTime_def
        one_subscriber_def errorpercent_circuit_def errorpercent_metrics_def
        signed_divide_int_def)

text \<open>
  C7, amended. \<open>publishMetrics\<close> marshals one record, built from the instant \<open>now\<close> of its
  first clock reading; each of the ten counts and percentages that the literal sets from a
  rolling number is the answer of that rolling number at that same \<open>now\<close> (cut to 32 bits);
  the six counts that the literal leaves out are 0; and the field \<open>Time\<close> is \<open>cur\<close>, the
  result of the second clock reading, which reaches no other field.
\<close>

theorem counts_use_one_now:
  "publishMetrics marshal cb s =
     (case marshal (CmdMetric (cmdMetric cb (clock s (reads s))
                      (clock s (Suc (reads s)) sdiv 1000000))) of
        Inl err \<Rightarrow> (Some err, s\<lparr>reads := reads s + 2\<rparr>)
      | Inr eventBytes \<Rightarrow> writeToRequests eventBytes (s\<lparr>reads := reads s + 2\<rparr>)) \<and>
   RequestCount (cmdMetric cb now cur) = ucast (Requests (metrics cb) now) \<and>
   ErrorCount (cmdMetric cb now cur) = ucast (Errors (metrics cb) now) \<and>
   ErrorPct (cmdMetric cb now cur) = ucast (ErrorPercent (metrics cb) now) \<and>
   RollingCountSuccess (cmdMetric cb now cur) = ucast (Successes (metrics cb) now) \<and>
   RollingCountFailure (cmdMetric cb now cur) = ucast (Failures (metrics cb) now) \<and>
   RollingCountThreadPoolRejected (cmdMetric cb now cur) = ucast (Rejected (metrics cb) now) \<and>
   RollingCountShortCircuited (cmdMetric cb now cur) = ucast (ShortCircuits (metrics cb) now) \<and>
   RollingCountTimeout (cmdMetric cb now cur) = ucast (Timeouts (metrics cb) now) \<and>
   RollingCountFallbackSuccess (cmdMetric cb now cur) =
     ucast (FallbackSuccesses (metrics cb) now) \<and>
   RollingCountFallbackFailure (cmdMetric cb now cur) =
     ucast (FallbackFailures (metrics cb) now) \<and>
   RollingCountCollapsedRequests (cmdMetric cb now cur) = 0 \<and>
   RollingCountExceptionsThrown (cmdMetric cb now cur) = 0 \<and>
   RollingCountFallbackRejection (cmdMetric cb now cur) = 0 \<and>
   RollingCountResponsesFromCache (cmdMetric cb now cur) = 0 \<and>
   RollingCountSemaphoreRejected (cmdMetric cb now cur) = 0 \<and>
   CurrentConcurrentExecutionCount (cmdMetric cb now cur) = 0 \<and>
   Time (cmdMetric cb now cur) = cur \<and>
   cmdMetric cb now cur' = (cmdMetric cb now cur)\<lparr>Time := cur'\<rparr>"
proof -
  have "publishMetrics marshal cb s =
     (case marshal (CmdMetric (cmdMetric cb (clock s (reads s))
                      (clock s (Suc (reads s)) sdiv 1000000))) of
        Inl err \<Rightarrow> (Some err, s\<lparr>reads := reads s + 2\<rparr>)
      | Inr eventBytes \<Rightarrow> writeToRequests eventBytes (s\<lparr>reads := reads s + 2\<rparr>))"
    by (rule publishMetrics_eq)
  then show ?thesis by (simp add: cmdMetric_def)
qed

text \<open>
  C6, as stated, fails: for a circuit configured with an error threshold of 75 per cent,
  a sleep window of 1000, a request volume threshold of 5, a window of 20000 and the
  isolation strategy SEMAPHORE, none of the five properties in the record is the
  configured one.
\<close>

theorem properties_not_from_config_counterexample:
  "CircuitBreakerErrorThresholdPercent (cmdMetric errorpercent_circuit 0 0) \<noteq>
     cfg_ErrorThresholdPercent (config errorpercent_circuit) \<and>
   CircuitBreakerSleepWindow (cmdMetric errorpercent_circuit 0 0) \<noteq>
     cfg_SleepWindow (config errorpercent_circuit) \<and>
   CircuitBreakerRequestVolumeThreshold (cmdMetric errorpercent_circuit 0 0) \<noteq>
     cfg_RequestVolumeThreshold (config errorpercent_circuit) \<and>
   RollingStatsWindow (cmdMetric errorpercent_circuit 0 0) \<noteq>
     cfg_RollingStatsWindow (config errorpercent_circuit) \<and>
   ExecutionIsolationStrategy (cmdMetric errorpercent_circuit 0 0) \<noteq>
     cfg_IsolationStrategy (config errorpercent_circuit)"
  by (simp add: cmdMetric_def errorpercent_circuit_def)

text \<open>
  C6, amended. The record of every circuit carries the same literals: error threshold 50,
  sleep window 5000, request volume threshold 20, statistics window 10000, isolation
  strategy THREAD, enabled, not forced closed. Only the force-open flag is the circuit's
  own, and the record does not depend on the configuration.
\<close>

theorem properties_are_fixed:
  "CircuitBreakerErrorThresholdPercent (cmdMetric cb now cur) = 50 \<and>
   CircuitBreakerSleepWindow (cmdMetric cb now cur) = 5000 \<and>
   CircuitBreakerRequestVolumeThreshold (cmdMetric cb now cur) = 20 \<and>
   RollingStatsWindow (cmdMetric cb now cur) = 10000 \<and>
   ExecutionIsolationStrategy (cmdMetric cb now cur) = ''THREAD'' \<and>
   CircuitBreakerEnabled (cmdMetric cb now cur) = True \<and>
   CircuitBreakerForceClosed (cmdMetric cb now cur) = False \<and>
   CircuitBreakerForceOpen (cmdMetric cb now cur) = forceOpen cb \<and>
   cmdMetric (cb\<lparr>config := cfg\<rparr>) now cur = cmdMetric cb now cur"
  by (simp add: cmdMetric_def)

end
